theory Spec2Isabelle
  imports Main
begin

section \<open>Messages and commands\<close>

text \<open>
  \<^verbatim>\<open>Msg\<close> is an open interface type and \<^verbatim>\<open>Cmd\<close> is \<^verbatim>\<open>func() Msg\<close>. Both have a nil
  value, modelled by \<open>None\<close>. A command is a closure with effects, so it is a function
  from the state of the world \<open>'w\<close> it runs in to the message it returns and the state
  it leaves behind. The message variants are the ones \<^verbatim>\<open>commands.go\<close> declares
  (\<^verbatim>\<open>BatchMsg\<close>, \<^verbatim>\<open>sequenceMsg\<close>, \<^verbatim>\<open>WrappedMsg\<close>, \<^verbatim>\<open>setWindowTitleMsg\<close>); every other
  dynamic type is an application message \<open>UserMsg\<close> with a payload of type \<open>'a\<close>.
\<close>

datatype ('a, 'w) msg =
    UserMsg 'a
  | BatchMsg "('a, 'w) cmd option list"
  | SequenceMsg "('a, 'w) cmd option list"
  | WrappedMsg (wrapped_Id: int) (wrapped_Msg: "('a, 'w) msg option")
  | SetWindowTitleMsg string
and ('a, 'w) cmd =
    Cmd (run: "'w \<Rightarrow> ('a, 'w) msg option \<times> 'w")

text \<open>
  Calling a nil function value panics in Go; \<open>invoke\<close> makes that branch a value.
\<close>

fun invoke :: "('a, 'w) cmd option \<Rightarrow> 'w \<Rightarrow> (('a, 'w) msg option \<times> 'w) option" where
  "invoke None w = None"
| "invoke (Some cmd) w = Some (run cmd w)"

section \<open>Batch and Sequence\<close>

text \<open>
  The loop of \<^verbatim>\<open>Batch\<close>: \<^verbatim>\<open>for _, c := range cmds\<close>, skipping nil and appending the
  others to \<^verbatim>\<open>validCmds\<close>.
\<close>

fun Batch_loop :: "('a, 'w) cmd option list \<Rightarrow> ('a, 'w) cmd option list
    \<Rightarrow> ('a, 'w) cmd option list" where
  "Batch_loop [] validCmds = validCmds"
| "Batch_loop (None # cmds) validCmds = Batch_loop cmds validCmds"
| "Batch_loop (Some c # cmds) validCmds = Batch_loop cmds (validCmds @ [Some c])"

definition Batch :: "('a, 'w) cmd option list \<Rightarrow> ('a, 'w) cmd option" where
  "Batch cmds =
     (let validCmds = Batch_loop cmds []
      in if length validCmds = 0 then None
         else Some (Cmd (\<lambda>w. (Some (BatchMsg validCmds), w))))"

definition Sequence :: "('a, 'w) cmd option list \<Rightarrow> ('a, 'w) cmd option" where
  "Sequence cmds = Some (Cmd (\<lambda>w. (Some (SequenceMsg cmds), w)))"

section \<open>Timer commands\<close>

text \<open>
  The functions of Go's \<^verbatim>\<open>time\<close> package that \<^verbatim>\<open>Every\<close> calls, after the package's
  documentation. A \<^verbatim>\<open>time.Time\<close> is read on the wall clock as a number of nanoseconds
  since the zero time; a \<^verbatim>\<open>time.Duration\<close> is an \<^verbatim>\<open>int64\<close> number of nanoseconds.
  \<^verbatim>\<open>Truncate\<close> rounds down to a multiple of \<open>d\<close> since the zero time and returns the
  time unchanged when \<open>d \<le> 0\<close>; \<^verbatim>\<open>Sub\<close> saturates at the largest and smallest
  duration.
\<close>

type_synonym time = int
type_synonym duration = int

definition maxDuration :: duration where
  "maxDuration = 2 ^ 63 - 1"

definition minDuration :: duration where
  "minDuration = - (2 ^ 63)"

definition time_Truncate :: "time \<Rightarrow> duration \<Rightarrow> time" where
  "time_Truncate t d = (if d \<le> 0 then t else t - t mod d)"

definition time_Add :: "time \<Rightarrow> duration \<Rightarrow> time" where
  "time_Add t d = t + d"

definition time_Sub :: "time \<Rightarrow> time \<Rightarrow> duration" where
  "time_Sub t u =
     (let d = t - u
      in if maxDuration < d then maxDuration
         else if d < minDuration then minDuration
         else d)"

text \<open>
  The runtime is a parameter of the two timer commands: \<open>time_Now\<close> reads the wall clock
  of the world (\<^verbatim>\<open>time.Now()\<close>), and \<open>timer d\<close> stands for
  \<^verbatim>\<open>t := time.NewTimer(d); <-t.C\<close>: it blocks, and returns the time sent on the channel
  together with the world in which the receive has returned.
\<close>

definition Every :: "('w \<Rightarrow> time) \<Rightarrow> (duration \<Rightarrow> 'w \<Rightarrow> time \<times> 'w) \<Rightarrow> duration
    \<Rightarrow> (time \<Rightarrow> ('a, 'w) msg option) \<Rightarrow> ('a, 'w) cmd option" where
  "Every time_Now timer duration fn = Some (Cmd (\<lambda>w.
     let n = time_Now w;
         d = time_Sub (time_Add (time_Truncate n duration) duration) n
     in case timer d w of (t, w') \<Rightarrow> (fn t, w')))"

definition Tick :: "(duration \<Rightarrow> 'w \<Rightarrow> time \<times> 'w) \<Rightarrow> duration
    \<Rightarrow> (time \<Rightarrow> ('a, 'w) msg option) \<Rightarrow> ('a, 'w) cmd option" where
  "Tick timer d fn = Some (Cmd (\<lambda>w.
     case timer d w of (t, w') \<Rightarrow> (fn t, w')))"

text \<open>
  What Go documents of a timer: it sends the current time on its channel after at least
  the duration it was created with.
\<close>

definition timer_contract :: "('w \<Rightarrow> time) \<Rightarrow> (duration \<Rightarrow> 'w \<Rightarrow> time \<times> 'w) \<Rightarrow> bool" where
  "timer_contract time_Now timer = (\<forall>d w. time_Now w + d \<le> fst (timer d w))"

section \<open>Sequentially and SetWindowTitle\<close>

text \<open>
  The loop of \<^verbatim>\<open>Sequentially\<close>: nil commands are skipped, the others are called in
  order, and the first message that is not nil is returned from inside the loop.
\<close>

fun Sequentially_loop :: "('a, 'w) cmd option list \<Rightarrow> 'w \<Rightarrow> ('a, 'w) msg option \<times> 'w" where
  "Sequentially_loop [] w = (None, w)"
| "Sequentially_loop (None # cmds) w = Sequentially_loop cmds w"
| "Sequentially_loop (Some cmd # cmds) w =
     (case run cmd w of
        (Some msg, w') \<Rightarrow> (Some msg, w')
      | (None, w') \<Rightarrow> Sequentially_loop cmds w')"

definition Sequentially :: "('a, 'w) cmd option list \<Rightarrow> ('a, 'w) cmd option" where
  "Sequentially cmds = Some (Cmd (\<lambda>w. Sequentially_loop cmds w))"

definition SetWindowTitle :: "string \<Rightarrow> ('a, 'w) cmd option" where
  "SetWindowTitle title = Some (Cmd (\<lambda>w. (Some (SetWindowTitleMsg title), w)))"

section \<open>Reference notions for the properties\<close>

text \<open>
  Running a list of commands one after the other, skipping nil: \<open>silent cmds w\<close> says
  that every command called this way returns no message, and \<open>world_after cmds w\<close> is
  the world the last of them leaves.
\<close>

fun silent :: "('a, 'w) cmd option list \<Rightarrow> 'w \<Rightarrow> bool" where
  "silent [] w = True"
| "silent (None # cmds) w = silent cmds w"
| "silent (Some cmd # cmds) w =
     (case run cmd w of (None, w') \<Rightarrow> silent cmds w' | (Some msg, w') \<Rightarrow> False)"

fun world_after :: "('a, 'w) cmd option list \<Rightarrow> 'w \<Rightarrow> 'w" where
  "world_after [] w = w"
| "world_after (None # cmds) w = world_after cmds w"
| "world_after (Some cmd # cmds) w = world_after cmds (snd (run cmd w))"

subsection \<open>Sample commands and a sample runtime\<close>

text \<open>
  \<open>logging k m\<close> is a command over a world that is the log of the commands called so
  far: it appends \<open>k\<close> to the log and returns \<open>m\<close>. The sample runtime is a world
  that is its own wall clock, with timers that fire exactly on time.
\<close>

definition logging :: "nat \<Rightarrow> ('a, nat list) msg option \<Rightarrow> ('a, nat list) cmd" where
  "logging k m = Cmd (\<lambda>log. (m, log @ [k]))"

definition clock_Now :: "int \<Rightarrow> time" where
  "clock_Now w = w"

definition clock_timer :: "duration \<Rightarrow> int \<Rightarrow> time \<times> int" where
  "clock_timer d w = (w + max d 0, w + max d 0)"

definition stamp :: "time \<Rightarrow> (int, int) msg option" where
  "stamp t = Some (UserMsg t)"

section \<open>Wrap\<close>

text \<open>
  The type switch of \<^verbatim>\<open>Wrap\<close>: the slice carried by a \<^verbatim>\<open>BatchMsg\<close> or a
  \<^verbatim>\<open>sequenceMsg\<close>, and the default case for every other message, nil included.
\<close>

fun composite_cmds :: "('a, 'w) msg option \<Rightarrow> ('a, 'w) cmd option list option" where
  "composite_cmds (Some (BatchMsg m)) = Some m"
| "composite_cmds (Some (SequenceMsg m)) = Some m"
| "composite_cmds _ = None"

text \<open>The test \<^verbatim>\<open>_, ok := msg.(BatchMsg)\<close>.\<close>

fun is_BatchMsg :: "('a, 'w) msg option \<Rightarrow> bool" where
  "is_BatchMsg (Some (BatchMsg m)) = True"
| "is_BatchMsg _ = False"

function Wrap :: "('a, 'w) cmd option \<Rightarrow> int \<Rightarrow> ('a, 'w) cmd option" where
  "Wrap None id' = None"
| "Wrap (Some cmd) id' = Some (Cmd (\<lambda>w.
     case run cmd w of (msg, w') \<Rightarrow>
       (case composite_cmds msg of
          None \<Rightarrow> (Some (WrappedMsg id' msg), w')
        | Some cmds \<Rightarrow>
            (let wrapped =
               foldl (\<lambda>wrapped c. if c = None then wrapped else wrapped @ [Wrap c id']) [] cmds
             in if is_BatchMsg msg then (Some (BatchMsg wrapped), w')
                else (Some (SequenceMsg wrapped), w')))))"
  by pat_completeness auto

text \<open>
  \<open>Wrap\<close> calls itself on the commands carried by the composite that the wrapped command
  returns. The relation below is that call graph; it is well-founded because a command
  carried by a message is a component of the closure that returned the message.
\<close>

definition wrap_rel ::
    "((('a, 'w) cmd option \<times> int) \<times> (('a, 'w) cmd option \<times> int)) set" where
  "wrap_rel = {((c, i), (Some cmd, j)) | c i cmd j w cmds.
      composite_cmds (fst (run cmd w)) = Some cmds \<and> c \<in> set cmds}"

lemma wrap_rel_None_acc: "(None, i) \<in> Wellfounded.acc wrap_rel"
  by (rule accI) (auto simp: wrap_rel_def)

lemma wrap_rel_elems_acc:
  assumes "\<And>co c. co \<in> set cmds \<Longrightarrow> c \<in> set_option co
             \<Longrightarrow> \<forall>i. (Some c, i) \<in> Wellfounded.acc wrap_rel"
    and "x \<in> set cmds"
  shows "(x, i) \<in> Wellfounded.acc wrap_rel"
proof (cases x)
  case None
  then show ?thesis by (simp add: wrap_rel_None_acc)
next
  case (Some c)
  with assms(2) have "Some c \<in> set cmds" by simp
  moreover have "c \<in> set_option (Some c)" by simp
  ultimately have "\<forall>i. (Some c, i) \<in> Wellfounded.acc wrap_rel" by (rule assms(1))
  with Some show ?thesis by simp
qed

lemma wrap_rel_acc_aux:
  fixes m :: "('a, 'w) msg" and c :: "('a, 'w) cmd"
  shows "\<forall>cmds. composite_cmds (Some m) = Some cmds \<longrightarrow>
            (\<forall>x \<in> set cmds. \<forall>i. (x, i) \<in> Wellfounded.acc wrap_rel)"
    and "\<forall>i. (Some c, i) \<in> Wellfounded.acc wrap_rel"
proof (induction m and c rule: msg.induct cmd.induct)
  case (BatchMsg cmds)
  show ?case
  proof (intro allI impI ballI)
    fix cs x i
    assume "composite_cmds (Some (BatchMsg cmds)) = Some cs"
      and "x \<in> set (cs :: ('a, 'w) cmd option list)"
    then have "x \<in> set cmds" by simp
    then show "(x, i) \<in> Wellfounded.acc wrap_rel"
      using BatchMsg by (rule wrap_rel_elems_acc [rotated])
  qed
next
  case (SequenceMsg cmds)
  show ?case
  proof (intro allI impI ballI)
    fix cs x i
    assume "composite_cmds (Some (SequenceMsg cmds)) = Some cs"
      and "x \<in> set (cs :: ('a, 'w) cmd option list)"
    then have "x \<in> set cmds" by simp
    then show "(x, i) \<in> Wellfounded.acc wrap_rel"
      using SequenceMsg by (rule wrap_rel_elems_acc [rotated])
  qed
next
  case (Cmd f)
  show ?case
  proof
    fix i
    show "(Some (Cmd f), i) \<in> Wellfounded.acc wrap_rel"
    proof (rule accI)
      fix y assume "(y, Some (Cmd f), i) \<in> wrap_rel"
      then obtain x j w cmds where y: "y = (x, j)" and x: "x \<in> set cmds"
        and r: "composite_cmds (fst (f w)) = Some cmds"
        unfolding wrap_rel_def by auto
      from r obtain m where fw: "fst (f w) = Some m"
        by (cases "fst (f w)") auto
      have "f w \<in> range f" by simp
      moreover have "Some m \<in> Basic_BNFs.fsts (f w)"
        using fw by (cases "f w") simp
      moreover have "m \<in> set_option (Some m)" by simp
      ultimately have "\<forall>cmds. composite_cmds (Some m) = Some cmds \<longrightarrow>
            (\<forall>x \<in> set cmds. \<forall>i. (x, i) \<in> Wellfounded.acc wrap_rel)"
        by (rule Cmd)
      with r fw x show "y \<in> Wellfounded.acc wrap_rel" unfolding y by simp
    qed
  qed
qed simp_all

lemma wf_wrap_rel: "wf wrap_rel"
proof (rule acc_wfI, rule allI)
  fix x :: "('a, 'w) cmd option \<times> int"
  obtain c i where x: "x = (c, i)" by (cases x)
  show "x \<in> Wellfounded.acc wrap_rel"
    unfolding x using wrap_rel_None_acc wrap_rel_acc_aux(2) by (cases c) auto
qed

termination Wrap
proof (relation "wrap_rel")
  show "wf wrap_rel" by (rule wf_wrap_rel)
next
  fix cmd :: "('a, 'w) cmd" and id' :: int and w msg w' cmds and c :: "('a, 'w) cmd option"
  assume "(msg, w') = run cmd w" and "composite_cmds msg = Some cmds" and "c \<in> set cmds"
  then have "composite_cmds (fst (run cmd w)) = Some cmds \<and> c \<in> set cmds"
    by (metis fst_conv)
  then show "((c, id'), Some cmd, id') \<in> wrap_rel"
    unfolding wrap_rel_def by blast
qed

section \<open>Properties of Batch and Sequence\<close>

lemma Batch_loop_filter:
  "Batch_loop cmds validCmds = validCmds @ filter (\<lambda>c. c \<noteq> None) cmds"
  by (induction cmds validCmds rule: Batch_loop.induct) simp_all

lemma Batch_unfold:
  "Batch cmds =
     (if filter (\<lambda>c. c \<noteq> None) cmds = [] then None
      else Some (Cmd (\<lambda>w. (Some (BatchMsg (filter (\<lambda>c. c \<noteq> None) cmds)), w))))"
  by (simp add: Batch_def Batch_loop_filter)

text \<open>
  C1. \<^verbatim>\<open>Batch\<close> removes the nil entries of its arguments. When no command is left
  (also for no argument at all) it returns nil; otherwise it returns a command that is
  not nil and that, invoked in any world, yields a \<^verbatim>\<open>BatchMsg\<close> carrying the commands
  that are not nil, in their original order, and leaves the world as it was.
\<close>

theorem Batch_filters_nil:
  "(filter (\<lambda>c. c \<noteq> None) cmds = [] \<longrightarrow> Batch cmds = None) \<and>
   (filter (\<lambda>c. c \<noteq> None) cmds \<noteq> [] \<longrightarrow>
      Batch cmds \<noteq> None \<and>
      (\<forall>w. invoke (Batch cmds) w =
         Some (Some (BatchMsg (filter (\<lambda>c. c \<noteq> None) cmds)), w)))"
  by (simp add: Batch_unfold)

theorem Batch_filters_nil_witness:
  "Batch [] = (None :: (nat, nat list) cmd option) \<and>
   Batch [None, None] = (None :: (nat, nat list) cmd option) \<and>
   invoke (Batch [None, Some (logging 1 None), None, Some (logging 2 (Some (UserMsg (5::nat))))]) [] =
     Some (Some (BatchMsg [Some (logging 1 None), Some (logging 2 (Some (UserMsg 5)))]), [])"
  using Batch_filters_nil [of "[] :: (nat, nat list) cmd option list"]
    Batch_filters_nil [of "[None, None] :: (nat, nat list) cmd option list"]
    Batch_filters_nil [of "[None, Some (logging 1 None), None,
      Some (logging 2 (Some (UserMsg (5::nat))))]"]
  by simp

text \<open>
  C5. \<^verbatim>\<open>Sequence\<close> returns a command that is not nil and that, invoked in any world,
  yields a sequence message carrying the given list of commands as it is, in the
  declared order, and leaves the world as it was.
\<close>

theorem Sequence_carries_list:
  "invoke (Sequence cmds) w = Some (Some (SequenceMsg cmds), w)"
  by (simp add: Sequence_def)

section \<open>Properties of Wrap\<close>

lemma Wrap_loop:
  "foldl (\<lambda>wrapped c. if c = None then wrapped else wrapped @ [Wrap c id']) acc cmds =
     acc @ map (\<lambda>c. Wrap c id') (filter (\<lambda>c. c \<noteq> None) cmds)"
  by (induction cmds arbitrary: acc) simp_all

lemma invoke_Wrap:
  "invoke (Wrap (Some cmd) id') w =
     Some (case run cmd w of
        (Some (BatchMsg cmds), w') \<Rightarrow>
          (Some (BatchMsg (map (\<lambda>c. Wrap c id') (filter (\<lambda>c. c \<noteq> None) cmds))), w')
      | (Some (SequenceMsg cmds), w') \<Rightarrow>
          (Some (SequenceMsg (map (\<lambda>c. Wrap c id') (filter (\<lambda>c. c \<noteq> None) cmds))), w')
      | (msg, w') \<Rightarrow> (Some (WrappedMsg id' msg), w'))"
  by (simp add: Wrap_loop split: prod.split option.split msg.split)

lemma Wrap_Some_not_nil [simp]: "Wrap (Some c) id' \<noteq> None"
  by simp

lemma nil_not_Wrap_Some [simp]: "None \<noteq> Wrap (Some c) id'"
  by simp

declare Wrap.simps(2) [simp del]

text \<open>
  C4. \<^verbatim>\<open>Wrap\<close> of the nil command is the nil command, for every id.
\<close>

theorem Wrap_nil:
  "Wrap None id' = None"
  by simp

text \<open>
  C3. When a command that is not nil yields a message \<open>M\<close> that is neither a
  \<^verbatim>\<open>BatchMsg\<close> nor a sequence message, the wrapped command yields
  \<^verbatim>\<open>WrappedMsg{Id: id, Msg: M}\<close> and leaves the world the inner command left.
\<close>

theorem Wrap_plain_message:
  assumes "run cmd w = (Some M, w')"
    and "\<forall>cmds. M \<noteq> BatchMsg cmds"
    and "\<forall>cmds. M \<noteq> SequenceMsg cmds"
  shows "invoke (Wrap (Some cmd) id') w = Some (Some (WrappedMsg id' (Some M)), w')"
  using assms by (cases M) (simp_all add: invoke_Wrap)

theorem Wrap_plain_message_witness:
  "invoke (Wrap (Some (logging 1 (Some (UserMsg (5::nat))))) 7) [] =
     Some (Some (WrappedMsg 7 (Some (UserMsg 5))), [1])"
proof -
  have r: "run (logging 1 (Some (UserMsg (5::nat)))) [] = (Some (UserMsg 5), [1])"
    by (simp add: logging_def)
  show ?thesis
    using Wrap_plain_message [OF r, of 7] by simp
qed

text \<open>
  C10. When a command that is not nil yields no message, the wrapped command does yield
  one: \<^verbatim>\<open>WrappedMsg{Id: id, Msg: nil}\<close>.
\<close>

theorem Wrap_nil_message:
  assumes "run cmd w = (None, w')"
  shows "invoke (Wrap (Some cmd) id') w = Some (Some (WrappedMsg id' None), w')"
  using assms by (simp add: invoke_Wrap)

theorem Wrap_nil_message_witness:
  "invoke (Wrap (Some (logging 1 (None :: (nat, nat list) msg option))) 7) [] =
     Some (Some (WrappedMsg 7 None), [1])"
proof -
  have r: "run (logging 1 (None :: (nat, nat list) msg option)) [] = (None, [1])"
    by (simp add: logging_def)
  show ?thesis
    using Wrap_nil_message [OF r, of 7] by simp
qed

text \<open>
  C2, as the code has it. When a command yields a \<^verbatim>\<open>BatchMsg\<close> or a sequence message
  carrying \<open>cmds\<close>, the wrapped command yields a composite of the same kind that carries
  \<open>Wrap c id\<close> for each \<open>c\<close> of \<open>cmds\<close> that is not nil, in order; the nil entries are
  left out. When no entry is nil the composite carries as many commands as \<open>cmds\<close>, and
  the \<open>i\<close>-th one is \<open>Wrap\<close> of the \<open>i\<close>-th command of \<open>cmds\<close>. The carried commands are
  themselves results of \<open>Wrap\<close>, so the same holds for whatever composite they yield.
\<close>

theorem Wrap_composite_law:
  "(run cmd w = (Some (BatchMsg cmds), w') \<longrightarrow>
      invoke (Wrap (Some cmd) id') w =
        Some (Some (BatchMsg (map (\<lambda>c. Wrap c id') (filter (\<lambda>c. c \<noteq> None) cmds))), w')) \<and>
   (run cmd w = (Some (SequenceMsg cmds), w') \<longrightarrow>
      invoke (Wrap (Some cmd) id') w =
        Some (Some (SequenceMsg (map (\<lambda>c. Wrap c id') (filter (\<lambda>c. c \<noteq> None) cmds))), w')) \<and>
   (None \<notin> set cmds \<longrightarrow>
      length (map (\<lambda>c. Wrap c id') (filter (\<lambda>c. c \<noteq> None) cmds)) = length cmds \<and>
      (\<forall>i < length cmds.
         map (\<lambda>c. Wrap c id') (filter (\<lambda>c. c \<noteq> None) cmds) ! i = Wrap (cmds ! i) id'))"
proof (intro conjI impI)
  assume "run cmd w = (Some (BatchMsg cmds), w')"
  then show "invoke (Wrap (Some cmd) id') w =
      Some (Some (BatchMsg (map (\<lambda>c. Wrap c id') (filter (\<lambda>c. c \<noteq> None) cmds))), w')"
    by (simp add: invoke_Wrap)
next
  assume "run cmd w = (Some (SequenceMsg cmds), w')"
  then show "invoke (Wrap (Some cmd) id') w =
      Some (Some (SequenceMsg (map (\<lambda>c. Wrap c id') (filter (\<lambda>c. c \<noteq> None) cmds))), w')"
    by (simp add: invoke_Wrap)
next
  assume "None \<notin> set cmds"
  then have "\<forall>c \<in> set cmds. c \<noteq> None" by metis
  then have f: "filter (\<lambda>c. c \<noteq> None) cmds = cmds"
    by (simp only: filter_id_conv)
  show "length (map (\<lambda>c. Wrap c id') (filter (\<lambda>c. c \<noteq> None) cmds)) = length cmds"
    unfolding f by simp
  show "\<forall>i < length cmds.
      map (\<lambda>c. Wrap c id') (filter (\<lambda>c. c \<noteq> None) cmds) ! i = Wrap (cmds ! i) id'"
    unfolding f by simp
qed

theorem Wrap_composite_law_witness:
  "invoke (Wrap (Batch [Sequence [Some (logging 1 None)], None,
        Some (logging 2 (Some (UserMsg (5::nat))))]) 7) [] =
     Some (Some (BatchMsg [Wrap (Sequence [Some (logging 1 None)]) 7,
        Wrap (Some (logging 2 (Some (UserMsg 5)))) 7]), []) \<and>
   invoke (Wrap (Sequence [Some (logging 1 None)]) 7) [] =
     Some (Some (SequenceMsg [Wrap (Some (logging 1 (None :: (nat, nat list) msg option))) 7]), [])"
proof -
  let ?s = "Cmd (\<lambda>w. (Some (SequenceMsg [Some (logging 1 (None :: (nat, nat list) msg option))]), w))"
  let ?l = "[Some ?s, Some (logging 2 (Some (UserMsg (5::nat))))]"
  let ?b = "Cmd (\<lambda>w. (Some (BatchMsg ?l), w))"
  have s: "Sequence [Some (logging 1 (None :: (nat, nat list) msg option))] = Some ?s"
    by (simp add: Sequence_def)
  have b: "Batch [Sequence [Some (logging 1 None)], None,
      Some (logging 2 (Some (UserMsg (5::nat))))] = Some ?b"
    by (simp add: Batch_unfold Sequence_def)
  have rb: "run ?b [] = (Some (BatchMsg ?l), [])" by simp
  have rs: "run ?s [] = (Some (SequenceMsg [Some (logging 1 None)]), [])" by simp
  show ?thesis
    unfolding b unfolding s
    using Wrap_composite_law [of ?b "[]" ?l "[]" 7] Wrap_composite_law [of ?s "[]" "[Some (logging 1 None)]" "[]" 7]
    by simp
qed

text \<open>
  C2 as stated fails on a composite with a nil entry: \<^verbatim>\<open>Sequence(nil, c)\<close> yields a
  sequence message of two commands, and wrapping it yields a sequence message of one.
\<close>

theorem Wrap_composite_counterexample:
  "invoke (Sequence [None, Some (logging 1 (None :: (nat, nat list) msg option))]) [] =
     Some (Some (SequenceMsg [None, Some (logging 1 None)]), []) \<and>
   invoke (Wrap (Sequence [None, Some (logging 1 (None :: (nat, nat list) msg option))]) 7) [] =
     Some (Some (SequenceMsg [Wrap (Some (logging 1 None)) 7]), []) \<and>
   length [Wrap (Some (logging 1 (None :: (nat, nat list) msg option))) 7] \<noteq>
     length [None, Some (logging 1 (None :: (nat, nat list) msg option))]"
  by (simp add: Sequence_def invoke_Wrap)



section \<open>Properties of Sequentially\<close>

lemma Sequentially_loop_append:
  "Sequentially_loop (pre @ rest) w =
     (if silent pre w then Sequentially_loop rest (world_after pre w)
      else Sequentially_loop pre w)"
  by (induction pre w rule: Sequentially_loop.induct)
    (auto split: prod.splits option.splits)

lemma Sequentially_loop_silent:
  "silent cmds w \<Longrightarrow> Sequentially_loop cmds w = (None, world_after cmds w)"
  using Sequentially_loop_append [of cmds "[]" w] by simp

lemma all_nil_silent:
  "\<forall>c \<in> set cmds. c = None \<Longrightarrow> silent cmds w \<and> world_after cmds w = w"
  by (induction cmds) auto

text \<open>
  C9. \<^verbatim>\<open>Sequentially\<close> returns a command that calls the given commands in the
  declared order and skips nil entries. When the commands before \<open>c\<close> all return no
  message and \<open>c\<close>, called in the world they leave, returns the message \<open>m\<close>, the result is
  \<open>m\<close> and the world is the one \<open>c\<close> left, whatever follows \<open>c\<close> in the list: no later
  command is called. When every command returns no message the result is nil after all
  of them have run, and when every entry is nil the result is nil and nothing has run.
\<close>

theorem Sequentially_first_message:
  "(silent pre w \<and> run c (world_after pre w) = (Some m, w') \<longrightarrow>
      invoke (Sequentially (pre @ Some c # post)) w = Some (Some m, w')) \<and>
   (silent cmds w \<longrightarrow>
      invoke (Sequentially cmds) w = Some (None, world_after cmds w)) \<and>
   ((\<forall>c \<in> set cmds. c = None) \<longrightarrow> invoke (Sequentially cmds) w = Some (None, w))"
proof (intro conjI impI)
  assume "silent pre w \<and> run c (world_after pre w) = (Some m, w')"
  then show "invoke (Sequentially (pre @ Some c # post)) w = Some (Some m, w')"
    by (simp add: Sequentially_def Sequentially_loop_append)
next
  assume "silent cmds w"
  then show "invoke (Sequentially cmds) w = Some (None, world_after cmds w)"
    by (simp add: Sequentially_def Sequentially_loop_silent)
next
  assume "\<forall>c \<in> set cmds. c = None"
  then have "silent cmds w \<and> world_after cmds w = w"
    by (rule all_nil_silent)
  then show "invoke (Sequentially cmds) w = Some (None, w)"
    by (simp add: Sequentially_def Sequentially_loop_silent)
qed

theorem Sequentially_first_message_witness:
  "invoke (Sequentially [Some (logging 1 None), None, Some (logging 2 (Some (UserMsg (5::nat)))),
       Some (logging 3 (Some (UserMsg 6)))]) [] = Some (Some (UserMsg 5), [1, 2]) \<and>
   invoke (Sequentially [Some (logging 1 (None :: (nat, nat list) msg option)), None,
       Some (logging 2 None)]) [] = Some (None, [1, 2]) \<and>
   invoke (Sequentially ([None, None] :: (nat, nat list) cmd option list)) [] = Some (None, [])"
  using
    Sequentially_first_message [of "[Some (logging 1 None), None]" "[]"
      "logging 2 (Some (UserMsg (5::nat)))" "UserMsg 5" "[1, 2]" "[Some (logging 3 (Some (UserMsg 6)))]"
      "[Some (logging 1 (None :: (nat, nat list) msg option)), None, Some (logging 2 None)]"]
    Sequentially_first_message [of "[]" "[] :: nat list" "logging 2 (Some (UserMsg (5::nat)))"
      "UserMsg 5" "[2]" "[]" "[None, None] :: (nat, nat list) cmd option list"]
  by (simp add: logging_def)

section \<open>Properties of the timer commands\<close>

lemma Every_delay:
  assumes "0 < d" and "d \<le> maxDuration"
  shows "time_Sub (time_Add (time_Truncate n d) d) n = d - n mod d"
proof -
  have lo: "0 \<le> n mod d" and hi: "n mod d < d"
    using assms(1) by simp_all
  have "minDuration < 0"
    by (simp add: minDuration_def)
  with hi have "\<not> d - n mod d < minDuration"
    by linarith
  moreover from lo assms(2) have "\<not> maxDuration < d - n mod d"
    by linarith
  ultimately show ?thesis
    using assms(1) by (simp add: time_Sub_def time_Add_def time_Truncate_def)
qed

lemma next_multiple_least:
  fixes d n k :: int
  assumes "0 < d" and "n < k" and "d dvd k"
  shows "n - n mod d + d \<le> k"
proof -
  from assms(3) obtain q where k: "k = d * q" ..
  have n: "n - n mod d = d * (n div d)"
    by (simp add: minus_mod_eq_mult_div)
  have "n div d < q"
  proof (rule ccontr)
    assume "\<not> n div d < q"
    then have "q \<le> n div d" by simp
    then have "d * q \<le> d * (n div d)"
      using assms(1) by (simp add: mult_left_mono)
    also have "\<dots> \<le> n"
      using n assms(1) pos_mod_sign [of d n] by linarith
    finally show False using assms(2) k by simp
  qed
  then have "n div d + 1 \<le> q" by simp
  then have "d * (n div d + 1) \<le> d * q"
    using assms(1) by (simp add: mult_left_mono)
  then have "d * (n div d) + d \<le> k"
    by (simp add: k distrib_left)
  then show ?thesis
    using n by linarith
qed

text \<open>
  C7. For a positive duration \<open>d\<close> and the time \<open>n\<close> the command reads on the wall clock,
  \<^verbatim>\<open>Every\<close> arms its timer with \<open>Truncate n d + d - n\<close>. This delay is positive and
  at most \<open>d\<close>, and \<open>n\<close> plus the delay is the least multiple of \<open>d\<close> that is greater
  than \<open>n\<close>: the next boundary of the wall clock. The message of the command is \<open>fn\<close>
  applied to the time the timer sends.
\<close>

theorem Every_next_boundary:
  assumes "0 < d" and "d \<le> maxDuration"
  shows "\<exists>delay.
      delay = time_Truncate (time_Now w) d + d - time_Now w \<and>
      invoke (Every time_Now timer d fn) w =
        Some (fn (fst (timer delay w)), snd (timer delay w)) \<and>
      0 < delay \<and> delay \<le> d \<and>
      d dvd (time_Now w + delay) \<and>
      (\<forall>k. time_Now w < k \<and> d dvd k \<longrightarrow> time_Now w + delay \<le> k)"
proof -
  let ?n = "time_Now w"
  let ?delay = "time_Truncate ?n d + d - ?n"
  have t: "time_Truncate ?n d = ?n - ?n mod d"
    using assms(1) by (simp add: time_Truncate_def)
  have "time_Sub (time_Add (time_Truncate ?n d) d) ?n = d - ?n mod d"
    by (rule Every_delay [OF assms])
  also have "\<dots> = ?delay"
    using t by simp
  finally have e: "time_Sub (time_Add (time_Truncate ?n d) d) ?n = ?delay" .
  have "invoke (Every time_Now timer d fn) w =
      Some (fn (fst (timer ?delay w)), snd (timer ?delay w))"
    by (simp add: Every_def e Let_def split: prod.split)
  moreover have "0 < ?delay" and "?delay \<le> d"
    using assms(1) t by simp_all
  moreover have "d dvd (?n + ?delay)"
    using t by (simp add: minus_mod_eq_mult_div)
  moreover have "\<forall>k. ?n < k \<and> d dvd k \<longrightarrow> ?n + ?delay \<le> k"
  proof (intro allI impI)
    fix k assume "?n < k \<and> d dvd k"
    then have "?n - ?n mod d + d \<le> k"
      using next_multiple_least [OF assms(1)] by blast
    then show "?n + ?delay \<le> k"
      using t by linarith
  qed
  ultimately show ?thesis by blast
qed

theorem Every_next_boundary_witness:
  "(0::int) < 60 \<and> 60 \<le> maxDuration \<and>
   time_Truncate (clock_Now 45260) 60 + 60 - clock_Now 45260 = 40 \<and>
   invoke (Every clock_Now clock_timer 60 stamp) 45260 = Some (Some (UserMsg 45300), 45300)"
proof -
  have p: "(0::int) < 60" by simp
  have m: "(60::int) \<le> maxDuration" by (simp add: maxDuration_def)
  have v: "time_Truncate (clock_Now 45260) 60 + 60 - clock_Now 45260 = 40"
    by (simp add: time_Truncate_def clock_Now_def)
  show ?thesis
    using Every_next_boundary [OF p m, of clock_Now 45260 clock_timer stamp] p m
    by (simp add: v clock_timer_def stamp_def)
qed

text \<open>
  C8. \<^verbatim>\<open>Tick\<close> arms its timer with \<open>d\<close> itself, whatever the wall clock reads when the
  command is invoked, and its message is \<open>fn\<close> applied to the time the timer sends. With a
  timer that keeps what Go documents of it, that time is no earlier than the time of
  the invocation plus \<open>d\<close>.
\<close>

theorem Tick_fires_after_duration:
  assumes "timer_contract time_Now timer"
  shows "\<exists>t w'. timer d w = (t, w') \<and>
      invoke (Tick timer d fn) w = Some (fn t, w') \<and>
      time_Now w + d \<le> t"
proof -
  obtain t w' where r: "timer d w = (t, w')"
    by (cases "timer d w")
  from assms have "time_Now w + d \<le> fst (timer d w)"
    unfolding timer_contract_def by blast
  with r show ?thesis
    by (simp add: Tick_def)
qed

theorem Tick_fires_after_duration_witness:
  "timer_contract clock_Now clock_timer \<and>
   clock_timer 200 1000 = (1200, 1200) \<and>
   invoke (Tick clock_timer 200 stamp) 1000 = Some (Some (UserMsg 1200), 1200) \<and>
   clock_Now 1000 + 200 \<le> 1200"
proof -
  have c: "timer_contract clock_Now clock_timer"
    by (simp add: timer_contract_def clock_Now_def clock_timer_def)
  show ?thesis
    using Tick_fires_after_duration [OF c, of 200 1000 stamp] c
    by (simp add: clock_timer_def clock_Now_def stamp_def)
qed

end
